theory Spec2Isabelle
  imports Main
begin

section \<open>Values, messages and the state of an XAPI instance\<close>

text \<open>
  The development embeds \<^verbatim>\<open>src/xapi/index.ts\<close>, the class \<^verbatim>\<open>XAPI\<close>.
  JavaScript values that travel through the class unchanged (parameters, results,
  errors) are a small datatype. \<open>JUndefined\<close> is what reading an absent property
  gives; \<open>JError name\<close> is an exception object of the given constructor name.
\<close>

datatype jsval =
    JUndefined
  | JNull
  | JBool bool
  | JNum int
  | JStr string
  | JArr "jsval list"
  | JObj "(string \<times> jsval) list"
  | JError string

text \<open>
  An inbound message (\<^verbatim>\<open>XapiResponse\<close>). Every property may be absent: \<open>None\<close> is
  an absent own property, \<open>Some v\<close> a present one with value \<open>v\<close>.
\<close>

record response =
  r_id :: "string option"
  r_method :: "string option"
  r_params :: "jsval option"
  r_result :: "jsval option"
  r_error :: "jsval option"

text \<open>Reading a property: an absent one reads as \<^verbatim>\<open>undefined\<close>.\<close>

definition read_prop :: "jsval option \<Rightarrow> jsval" where
  "read_prop v = (case v of None \<Rightarrow> JUndefined | Some x \<Rightarrow> x)"

text \<open>
  The key under which \<^verbatim>\<open>this.requests[id]\<close> looks: a property key is a string, and
  an \<^verbatim>\<open>undefined\<close> id is coerced to the key \<^verbatim>\<open>"undefined"\<close>.
\<close>

definition key_of :: "string option \<Rightarrow> string" where
  "key_of i = (case i of None \<Rightarrow> ''undefined'' | Some k \<Rightarrow> k)"

text \<open>An outbound request, as \<^verbatim>\<open>rpc.createRequest\<close> builds it.\<close>

record request =
  jsonrpc :: string
  req_id :: string
  req_method :: string
  req_params :: jsval

text \<open>
  Modelled from the spec: \<^verbatim>\<open>rpc.createRequest\<close> (\<^verbatim>\<open>src/xapi/rpc.ts\<close> is not among the
  sources). The spec gives it as the canonical Request object with a fixed protocol
  version tag; the tests of the backend show the tag \<^verbatim>\<open>'2.0'\<close>.
\<close>

definition createRequest :: "string \<Rightarrow> string \<Rightarrow> jsval \<Rightarrow> request" where
  "createRequest i m p = \<lparr>jsonrpc = ''2.0'', req_id = i, req_method = m, req_params = p\<rparr>"

text \<open>
  \<^verbatim>\<open>new Promise((resolve, reject) => ...)\<close> makes a fresh pair of continuations.
  A promise is named by the number of its allocation; its two continuations are
  \<open>Resolve p\<close> and \<open>Reject p\<close>.
\<close>

datatype cont = Resolve nat | Reject nat

fun promise_of :: "cont \<Rightarrow> nat" where
  "promise_of (Resolve p) = p"
| "promise_of (Reject p) = p"

text \<open>An entry of the table \<^verbatim>\<open>Requests\<close>.\<close>

record entry =
  resolve :: cont
  reject :: cont

text \<open>
  What the class does to its collaborators, in the order it does it: calls of
  \<^verbatim>\<open>backend.execute\<close> and \<^verbatim>\<open>backend.close\<close>, calls of \<^verbatim>\<open>feedback.dispatch\<close>, calls of a
  continuation, and the lifecycle events re-emitted on the instance's own emitter.
  Calls of \<^verbatim>\<open>log.debug\<close> are left out.
\<close>

datatype lifecycle = LClose | LError jsval | LReady

datatype event =
    BackendExecute request
  | BackendClose
  | Dispatch jsval
  | Invoke cont jsval
  | Emit lifecycle

text \<open>
  The instance: the two private fields \<^verbatim>\<open>requestId\<close> and \<^verbatim>\<open>requests\<close>, the allocation
  counter of promises, and the trace of effects so far (oldest first). The counter
  \<^verbatim>\<open>requestId\<close> is a JavaScript number that only ever holds positive integers; it is
  a \<open>nat\<close> here (a double holds every integer up to \<open>2 ^ 53\<close> exactly).
\<close>

record xapi =
  requestId :: nat
  requests :: "string \<rightharpoonup> entry"
  nextPromise :: nat
  trace :: "event list"

definition fresh :: xapi where
  "fresh = \<lparr>requestId = 1, requests = Map.empty, nextPromise = 0, trace = []\<rparr>"

definition emit_event :: "event \<Rightarrow> xapi \<Rightarrow> xapi" where
  "emit_event ev s = s\<lparr>trace := trace s @ [ev]\<rparr>"

section \<open>Handling an inbound message\<close>

text \<open>
  \<^verbatim>\<open>handleResponse\<close>. A feedback event goes to \<^verbatim>\<open>feedback.dispatch\<close>. Anything else
  reads \<^verbatim>\<open>this.requests[id]\<close> and destructures it: with no entry under the key the
  read gives \<^verbatim>\<open>undefined\<close> and the destructuring raises a \<^verbatim>\<open>TypeError\<close> (the members
  that a plain object inherits carry neither \<^verbatim>\<open>resolve\<close> nor \<^verbatim>\<open>reject\<close>, so a key that
  names one of them raises a \<^verbatim>\<open>TypeError\<close> at the call). The exception leaves before
  the \<^verbatim>\<open>delete\<close>, so nothing has changed when it is raised. \<open>Inl\<close> is the exception.
  A continuation of a promise returns without raising; \<^verbatim>\<open>feedback.dispatch\<close>, whose class
  is not among the sources, is taken to return as well.
\<close>

definition handleResponse :: "response \<Rightarrow> xapi \<Rightarrow> jsval + xapi" where
  "handleResponse r s =
     (let k = key_of (r_id r) in
      if r_method r = Some ''xFeedback/Event'' then
        Inr (emit_event (Dispatch (read_prop (r_params r))) s)
      else
        (case r_result r of
           Some v \<Rightarrow>
             (case requests s k of
                None \<Rightarrow> Inl (JError ''TypeError'')
              | Some e \<Rightarrow>
                  Inr ((emit_event (Invoke (resolve e) v) s)\<lparr>requests := (requests s)(k := None)\<rparr>))
         | None \<Rightarrow>
             (case requests s k of
                None \<Rightarrow> Inl (JError ''TypeError'')
              | Some e \<Rightarrow>
                  Inr ((emit_event (Invoke (reject e) (read_prop (r_error r))) s)
                         \<lparr>requests := (requests s)(k := None)\<rparr>))))"

text \<open>
  What reaches the instance from its backend. The constructor registers one listener
  for each of \<^verbatim>\<open>close\<close>, \<^verbatim>\<open>error\<close> and \<^verbatim>\<open>ready\<close>, which re-emits the event on the instance,
  and \<open>handleResponse\<close> for \<^verbatim>\<open>data\<close>. The listeners that a caller registers on the
  instance are the caller's code and lie outside the class; for \<^verbatim>\<open>error\<close> the caller is
  taken to have registered one (an emitter raises an \<^verbatim>\<open>error\<close> event that nobody
  listens to).
\<close>

datatype signal = Data response | Life lifecycle

fun handle_signal :: "signal \<Rightarrow> xapi \<Rightarrow> jsval + xapi" where
  "handle_signal (Data r) s = handleResponse r s"
| "handle_signal (Life l) s = Inr (emit_event (Emit l) s)"

text \<open>
  An emitter runs its listeners at once, and what a listener raises leaves through
  \<^verbatim>\<open>emit\<close>. \<open>deliver\<close> hands a sequence of signals to the instance and stops at the
  first exception, keeping what was done before it.
\<close>

fun deliver :: "signal list \<Rightarrow> xapi \<Rightarrow> jsval option \<times> xapi" where
  "deliver [] s = (None, s)"
| "deliver (g # gs) s =
     (case handle_signal g s of
        Inl e \<Rightarrow> (Some e, s)
      | Inr s' \<Rightarrow> deliver gs s')"

section \<open>Sending a request\<close>

text \<open>
  \<^verbatim>\<open>Number.prototype.toString\<close> on a non-negative integer: its decimal digits, most
  significant first, with no leading zero.
\<close>

definition digit :: "nat \<Rightarrow> char" where
  "digit d = ''0123456789'' ! d"

fun show_nat :: "nat \<Rightarrow> string" where
  "show_nat n = (if n < 10 then [digit n] else show_nat (n div 10) @ [digit (n mod 10)])"

declare show_nat.simps [simp del]

text \<open>\<^verbatim>\<open>nextRequestId\<close>: the string of the counter, and the counter moved on by one.\<close>

definition nextRequestId :: "xapi \<Rightarrow> string \<times> xapi" where
  "nextRequestId s = (show_nat (requestId s), s\<lparr>requestId := requestId s + 1\<rparr>)"

text \<open>
  The class \<^verbatim>\<open>Backend\<close> is not among the sources, so what a call of one of its methods
  does to the instance is a parameter: the signals the backend emits before the call
  returns, in order, and the exception the call raises at its end, if any. A backend
  that answers later emits nothing during the call; its answer is a signal of its own.
\<close>

record backend_call =
  emits :: "signal list"
  raises :: "jsval option"

definition call_backend :: "event \<Rightarrow> backend_call \<Rightarrow> xapi \<Rightarrow> jsval option \<times> xapi" where
  "call_backend ev c s =
     (case deliver (emits c) (emit_event ev s) of
        (Some e, s') \<Rightarrow> (Some e, s')
      | (None, s') \<Rightarrow> (raises c, s'))"

text \<open>
  \<^verbatim>\<open>execute\<close>. The promise constructor runs the executor at once; an exception of the
  executor rejects the new promise and ends the executor, so the line storing the
  continuations is not reached then. The result is the new promise and the state.
\<close>

definition execute :: "(request \<Rightarrow> backend_call) \<Rightarrow> string \<Rightarrow> jsval \<Rightarrow> xapi \<Rightarrow> nat \<times> xapi" where
  "execute bk m ps s =
     (let p = nextPromise s;
          (i, s1) = nextRequestId (s\<lparr>nextPromise := Suc p\<rparr>);
          rq = createRequest i m ps
      in case call_backend (BackendExecute rq) (bk rq) s1 of
           (Some e, s2) \<Rightarrow> (p, emit_event (Invoke (Reject p) e) s2)
         | (None, s2) \<Rightarrow>
             (p, s2\<lparr>requests := (requests s2)(i \<mapsto> \<lparr>resolve = Resolve p, reject = Reject p\<rparr>)\<rparr>))"

text \<open>
  The state in which the backend finds the instance when \<^verbatim>\<open>backend.execute(request)\<close>
  is entered, and the id of that request.
\<close>

definition at_backend_execute :: "string \<Rightarrow> jsval \<Rightarrow> xapi \<Rightarrow> string \<times> xapi" where
  "at_backend_execute m ps s =
     (let (i, s1) = nextRequestId (s\<lparr>nextPromise := Suc (nextPromise s)\<rparr>)
      in (i, emit_event (BackendExecute (createRequest i m ps)) s1))"

text \<open>\<^verbatim>\<open>close\<close>: the call goes to the backend; the instance itself is returned.\<close>

definition close :: "backend_call \<Rightarrow> xapi \<Rightarrow> jsval option \<times> xapi" where
  "close c s = call_backend BackendClose c s"

section \<open>Paths and commands\<close>

text \<open>The type \<^verbatim>\<open>Path\<close>: one string, or an array of segments.\<close>

datatype path = PStr string | PArr "string list"

text \<open>
  Modelled from the spec: the delimiters of a path string, a space and a slash
  (\<^verbatim>\<open>normalizePath\<close> is not among the sources).
\<close>

definition is_delim :: "char \<Rightarrow> bool" where
  "is_delim c \<longleftrightarrow> c = CHR '' '' \<or> c = CHR ''/''"

text \<open>
  A segment of a path: not empty, and free of the two delimiters.
\<close>

definition is_segment :: "string \<Rightarrow> bool" where
  "is_segment seg \<longleftrightarrow> seg \<noteq> [] \<and> list_all (\<lambda>c. \<not> is_delim c) seg"

text \<open>
  Modelled from the spec: the splitting of a path string inside \<^verbatim>\<open>normalizePath\<close>, which
  is not among the sources. The spec has the string delimited by spaces and slashes.
  \<open>split_acc cur s\<close> reads \<open>s\<close> with the segment \<open>cur\<close> begun; a run of delimiters
  separates two segments and makes no empty one.
\<close>

fun split_acc :: "string \<Rightarrow> string \<Rightarrow> string list" where
  "split_acc cur [] = (if cur = [] then [] else [cur])"
| "split_acc cur (c # cs) =
     (if is_delim c then (if cur = [] then split_acc [] cs else cur # split_acc [] cs)
      else split_acc (cur @ [c]) cs)"

text \<open>
  Modelled from the spec: \<^verbatim>\<open>normalizePath\<close> (\<^verbatim>\<open>src/xapi/normalizePath.ts\<close> is not among
  the sources). The spec: a path is accepted as a single space/slash-delimited string
  or as an explicit ordered sequence of segments, both normalize to the same ordered
  sequence, and the case of the segment text is preserved.
\<close>

fun normalizePath :: "path \<Rightarrow> string list" where
  "normalizePath (PArr segs) = segs"
| "normalizePath (PStr s) = split_acc [] s"

text \<open>\<^verbatim>\<open>Array.prototype.join\<close> on an array of strings.\<close>

fun join :: "string \<Rightarrow> string list \<Rightarrow> string" where
  "join sep [] = []"
| "join sep [x] = x"
| "join sep (x # y # ys) = x @ sep @ join sep (y # ys)"

text \<open>
  \<^verbatim>\<open>Object.assign({ body }, params)\<close>: the own enumerable properties of \<^verbatim>\<open>params\<close> are
  written over an object that holds \<^verbatim>\<open>body\<close>. An array and a string have their indices
  as properties; \<^verbatim>\<open>undefined\<close>, \<^verbatim>\<open>null\<close>, a number and a boolean have none. An object
  is the list of its properties; the order in which an engine enumerates them is not
  modelled.
\<close>

fun own_props :: "jsval \<Rightarrow> (string \<times> jsval) list" where
  "own_props (JObj kvs) = kvs"
| "own_props (JArr xs) = zip (map show_nat [0..<length xs]) xs"
| "own_props (JStr cs) = zip (map show_nat [0..<length cs]) (map (\<lambda>c. JStr [c]) cs)"
| "own_props _ = []"

fun set_prop :: "string \<Rightarrow> jsval \<Rightarrow> (string \<times> jsval) list \<Rightarrow> (string \<times> jsval) list" where
  "set_prop k v [] = [(k, v)]"
| "set_prop k v ((k', v') # kvs) =
     (if k = k' then (k, v) # kvs else (k', v') # set_prop k v kvs)"

definition object_assign :: "(string \<times> jsval) list \<Rightarrow> jsval \<Rightarrow> jsval" where
  "object_assign target src = JObj (foldl (\<lambda>t (k, v). set_prop k v t) target (own_props src))"

definition command_method :: "path \<Rightarrow> string" where
  "command_method pth = ''xCommand/'' @ join ''/'' (normalizePath pth)"

definition command_params :: "jsval \<Rightarrow> string option \<Rightarrow> jsval" where
  "command_params ps body =
     (case body of None \<Rightarrow> ps | Some b \<Rightarrow> object_assign [(''body'', JStr b)] ps)"

text \<open>\<^verbatim>\<open>command\<close>.\<close>

definition command ::
  "(request \<Rightarrow> backend_call) \<Rightarrow> path \<Rightarrow> jsval \<Rightarrow> string option \<Rightarrow> xapi \<Rightarrow> nat \<times> xapi" where
  "command bk pth ps body s = execute bk (command_method pth) (command_params ps body) s"

section \<open>Runs of an instance\<close>

text \<open>
  What can happen to an instance: a caller executes a request or closes the instance,
  or the backend emits a signal. An exception that a signal raises goes back to the
  backend and leaves the instance as it was.
\<close>

datatype action =
    Execute string jsval "request \<Rightarrow> backend_call"
  | Command path jsval "string option" "request \<Rightarrow> backend_call"
  | Close backend_call
  | Signal signal

fun step :: "action \<Rightarrow> xapi \<Rightarrow> xapi" where
  "step (Execute m ps bk) s = snd (execute bk m ps s)"
| "step (Command pth ps body bk) s = snd (command bk pth ps body s)"
| "step (Close c) s = snd (close c s)"
| "step (Signal g) s = (case handle_signal g s of Inl e \<Rightarrow> s | Inr s' \<Rightarrow> s')"

fun run :: "action list \<Rightarrow> xapi \<Rightarrow> xapi" where
  "run [] s = s"
| "run (a # as) s = run as (step a s)"

text \<open>The promises whose continuations a trace invokes, and the ids it sends.\<close>

fun invoked_of :: "event \<Rightarrow> nat list" where
  "invoked_of (Invoke c v) = [promise_of c]"
| "invoked_of _ = []"

definition invoked :: "event list \<Rightarrow> nat list" where
  "invoked tr = concat (map invoked_of tr)"

fun sent_of :: "event \<Rightarrow> string list" where
  "sent_of (BackendExecute rq) = [req_id rq]"
| "sent_of _ = []"

definition sent_ids :: "event list \<Rightarrow> string list" where
  "sent_ids tr = concat (map sent_of tr)"

text \<open>The requests that a trace hands to \<^verbatim>\<open>backend.execute\<close>, oldest first.\<close>

fun request_of :: "event \<Rightarrow> request list" where
  "request_of (BackendExecute rq) = [rq]"
| "request_of _ = []"

definition sent_requests :: "event list \<Rightarrow> request list" where
  "sent_requests tr = concat (map request_of tr)"

fun dispatched_of :: "event \<Rightarrow> jsval list" where
  "dispatched_of (Dispatch v) = [v]"
| "dispatched_of _ = []"

definition dispatched :: "event list \<Rightarrow> jsval list" where
  "dispatched tr = concat (map dispatched_of tr)"

section \<open>Invariants of a run\<close>

text \<open>The call of a continuation by which an entry answers a message.\<close>

definition settle :: "response \<Rightarrow> entry \<Rightarrow> event" where
  "settle r e = (case r_result r of
                   Some v \<Rightarrow> Invoke (resolve e) v
                 | None \<Rightarrow> Invoke (reject e) (read_prop (r_error r)))"

text \<open>
  \<open>inv_at b c s\<close>: every key of the table is the string of a positive number below
  \<open>c\<close>; every entry holds the two continuations of one promise allocated below \<open>b\<close>,
  of which the trace invokes none; two keys never hold the same entry; the trace
  invokes no promise twice, and none from \<open>b\<close> on.
\<close>

definition inv_at :: "nat \<Rightarrow> nat \<Rightarrow> xapi \<Rightarrow> bool" where
  "inv_at b c s \<longleftrightarrow>
     (\<forall>k e. requests s k = Some e \<longrightarrow> (\<exists>n. 0 < n \<and> n < c \<and> k = show_nat n))
   \<and> (\<forall>k e. requests s k = Some e \<longrightarrow>
        (\<exists>p. p < b \<and> e = \<lparr>resolve = Resolve p, reject = Reject p\<rparr> \<and> p \<notin> set (invoked (trace s))))
   \<and> (\<forall>k k' e. requests s k = Some e \<longrightarrow> requests s k' = Some e \<longrightarrow> k = k')
   \<and> distinct (invoked (trace s))
   \<and> (\<forall>p \<in> set (invoked (trace s)). p < b)"

text \<open>Two states with the same counters, having sent the same ids.\<close>

definition same_counters :: "xapi \<Rightarrow> xapi \<Rightarrow> bool" where
  "same_counters s s' \<longleftrightarrow>
     requestId s' = requestId s \<and> nextPromise s' = nextPromise s
     \<and> sent_ids (trace s') = sent_ids (trace s)"

text \<open>
  The invariant of an instance between two calls: \<open>inv_at\<close> at the two counters, the
  counter of ids is positive, and the ids sent so far are the strings of \<open>1\<close>, \<open>2\<close>,
  ... up to that counter.
\<close>

definition inv :: "xapi \<Rightarrow> bool" where
  "inv s \<longleftrightarrow>
     inv_at (nextPromise s) (requestId s) s
   \<and> 0 < requestId s
   \<and> sent_ids (trace s) = map show_nat [1..<requestId s]"

text \<open>A backend that emits nothing during a call and raises nothing.\<close>

definition quiet :: "request \<Rightarrow> backend_call" where
  "quiet rq = \<lparr>emits = [], raises = None\<rparr>"



text \<open>The number of requests that a sequence of actions sends.\<close>

fun sends :: "action \<Rightarrow> nat" where
  "sends (Execute m ps bk) = 1"
| "sends (Command pth ps body bk) = 1"
| "sends (Close c) = 0"
| "sends (Signal g) = 0"

definition executes :: "action list \<Rightarrow> nat" where
  "executes as = sum_list (map sends as)"

text \<open>
  A payload that is neither a feedback event nor a response: its method is not
  \<^verbatim>\<open>xFeedback/Event\<close>, and it has neither a \<^verbatim>\<open>result\<close> nor an \<^verbatim>\<open>error\<close> key, or no id.
\<close>

definition malformed :: "response \<Rightarrow> bool" where
  "malformed r \<longleftrightarrow>
     r_method r \<noteq> Some ''xFeedback/Event''
     \<and> ((r_result r = None \<and> r_error r = None) \<or> r_id r = None)"

section \<open>The backend's default handler\<close>

text \<open>
  Modelled from the spec: the class \<^verbatim>\<open>Backend\<close> (\<^verbatim>\<open>src/backend/index.ts\<close> is not among the
  sources; its test is). The spec: \<^verbatim>\<open>execute(request)\<close> accepts a Request-shaped
  object that may lack its id, looks up a locally registered handler keyed by the
  request's method name (format \<^verbatim>\<open><Category>[/<Action>]\<close>, e.g. \<^verbatim>\<open>xCommand\<close>,
  \<^verbatim>\<open>xFeedback/Subscribe\<close>, \<^verbatim>\<open>xFeedback/Unsubscribe\<close>, \<^verbatim>\<open>xGet\<close>, \<^verbatim>\<open>xSet\<close>) and invokes it;
  with no handler it falls back to a default handler that always reports an
  \<^verbatim>\<open>Invalid request method\<close> failure. \<^verbatim>\<open>defaultHandler(request)\<close> returns a rejected
  outcome carrying \<^verbatim>\<open>Invalid request method\<close> and never throws synchronously. A
  handler that throws is caught; its failure becomes the outcome.
\<close>

record backend_request =
  b_id :: "string option"
  b_method :: string
  b_params :: jsval

text \<open>The outcome of a promise: fulfilled with a value, or rejected with a message.\<close>

datatype outcome = Fulfilled jsval | Rejected string

text \<open>A handler returns an outcome (\<open>Inr\<close>) or throws a message at once (\<open>Inl\<close>).\<close>

type_synonym handler = "backend_request \<Rightarrow> string + outcome"

text \<open>
  Modelled from the spec: the key under which \<^verbatim>\<open>Backend.execute\<close>, which is not among
  the sources, looks a handler up. Every command, whatever its path, goes to the one
  handler \<^verbatim>\<open>xCommand\<close> (the test sends \<^verbatim>\<open>xCommand/Dial\<close> and \<^verbatim>\<open>xCommand/Foo/Bar\<close> to it);
  any other method is its own key.
\<close>

definition handler_key :: "string \<Rightarrow> string" where
  "handler_key m = (if takeWhile (\<lambda>c. c \<noteq> CHR ''/'') m = ''xCommand'' then ''xCommand'' else m)"

text \<open>
  Modelled from the spec: \<^verbatim>\<open>Backend.defaultHandler\<close>, which is not among the sources. It
  returns a rejected outcome carrying \<^verbatim>\<open>Invalid request method\<close>.
\<close>

definition defaultHandler :: handler where
  "defaultHandler rq = Inr (Rejected ''Invalid request method'')"

text \<open>
  Modelled from the spec: \<^verbatim>\<open>Backend.execute\<close>, which is not among the sources. The
  handler registered under the key of the request's method is invoked, the default
  handler when there is none; what a handler throws becomes a rejection.
\<close>

definition backend_execute :: "(string \<rightharpoonup> handler) \<Rightarrow> backend_request \<Rightarrow> outcome" where
  "backend_execute hs rq =
     (let h = (case hs (handler_key (b_method rq)) of None \<Rightarrow> defaultHandler | Some f \<Rightarrow> f)
      in case h rq of Inl msg \<Rightarrow> Rejected msg | Inr out \<Rightarrow> out)"

section \<open>Concrete instances and messages\<close>

definition get_request :: "string \<Rightarrow> request" where
  "get_request i = \<lparr>jsonrpc = ''2.0'', req_id = i, req_method = ''xGet'', req_params = JNull\<rparr>"

definition pending :: "nat \<Rightarrow> entry" where
  "pending p = \<lparr>resolve = Resolve p, reject = Reject p\<rparr>"

definition one_pending :: xapi where
  "one_pending = snd (execute quiet ''xGet'' JNull fresh)"

definition two_pending :: xapi where
  "two_pending = snd (execute quiet ''xGet'' JNull one_pending)"

definition message :: "string option \<Rightarrow> jsval option \<Rightarrow> jsval option \<Rightarrow> response" where
  "message i res err =
     \<lparr>r_id = i, r_method = None, r_params = None, r_result = res, r_error = err\<rparr>"

definition feedback_event :: "jsval \<Rightarrow> response" where
  "feedback_event v =
     \<lparr>r_id = None, r_method = Some ''xFeedback/Event'', r_params = Some v,
      r_result = None, r_error = None\<rparr>"



text \<open>The request of the backend's test: \<^verbatim>\<open>xCommand/Dial\<close>, with no id.\<close>

definition dial :: backend_request where
  "dial = \<lparr>b_id = None, b_method = ''xCommand/Dial'',
            b_params = JObj [(''Number'', JStr ''user@example.com'')]\<rparr>"

section \<open>Decimal strings\<close>

lemma digit_inj: "a < 10 \<Longrightarrow> b < 10 \<Longrightarrow> digit a = digit b \<Longrightarrow> a = b"
proof -
  assume a: "a < 10" and b: "b < 10" and e: "digit a = digit b"
  have d: "distinct ''0123456789''" by simp
  have "length ''0123456789'' = 10" by simp
  with a b e d show ?thesis
    unfolding digit_def by (metis nth_eq_iff_index_eq)
qed

lemma show_nat_length: "0 < length (show_nat n)"
  by (subst show_nat.simps) simp

lemma show_nat_inj: "show_nat m = show_nat n \<Longrightarrow> m = n"
proof (induction m arbitrary: n rule: show_nat.induct)
  case (1 m)
  show ?case
  proof (cases "m < 10")
    case True
    note m = this
    show ?thesis
    proof (cases "n < 10")
      case True
      with m "1.prems" show ?thesis
        by (simp add: show_nat.simps [of m] show_nat.simps [of n] digit_inj)
    next
      case False
      have "length (show_nat n) = Suc (length (show_nat (n div 10)))"
        using False by (subst show_nat.simps) simp
      moreover have "length (show_nat m) = 1"
        using m by (subst show_nat.simps) simp
      ultimately show ?thesis using "1.prems" show_nat_length [of "n div 10"] by simp
    qed
  next
    case False
    note m = this
    show ?thesis
    proof (cases "n < 10")
      case True
      have "length (show_nat m) = Suc (length (show_nat (m div 10)))"
        using m by (subst show_nat.simps) simp
      moreover have "length (show_nat n) = 1"
        using True by (subst show_nat.simps) simp
      ultimately show ?thesis using "1.prems" show_nat_length [of "m div 10"] by simp
    next
      case False
      from m False "1.prems"
      have eq: "show_nat (m div 10) @ [digit (m mod 10)] = show_nat (n div 10) @ [digit (n mod 10)]"
        by (simp add: show_nat.simps [of m] show_nat.simps [of n])
      then have "show_nat (m div 10) = show_nat (n div 10)" and dg: "digit (m mod 10) = digit (n mod 10)"
        by simp_all
      then have q: "m div 10 = n div 10" using "1.IH" m by blast
      have r: "m mod 10 = n mod 10" using dg by (intro digit_inj) simp_all
      from q r show ?thesis by (metis div_mult_mod_eq)
    qed
  qed
qed

section \<open>What one message does\<close>

lemma handleResponse_feedback:
  "r_method r = Some ''xFeedback/Event'' \<Longrightarrow>
   handleResponse r s = Inr (emit_event (Dispatch (read_prop (r_params r))) s)"
  by (simp add: handleResponse_def)

lemma handleResponse_hit:
  "r_method r \<noteq> Some ''xFeedback/Event'' \<Longrightarrow> requests s (key_of (r_id r)) = Some e \<Longrightarrow>
   handleResponse r s =
     Inr ((emit_event (settle r e) s)\<lparr>requests := (requests s)(key_of (r_id r) := None)\<rparr>)"
  by (simp add: handleResponse_def Let_def settle_def split: option.splits)

lemma handleResponse_miss:
  "r_method r \<noteq> Some ''xFeedback/Event'' \<Longrightarrow> requests s (key_of (r_id r)) = None \<Longrightarrow>
   handleResponse r s = Inl (JError ''TypeError'')"
  by (simp add: handleResponse_def Let_def split: option.splits)

lemma invoked_append: "invoked (xs @ ys) = invoked xs @ invoked ys"
  by (simp add: invoked_def)

lemma invoked_settle:
  "invoked [settle r \<lparr>resolve = Resolve p, reject = Reject p\<rparr>] = [p]"
  by (simp add: invoked_def settle_def split: option.splits)

lemma inv_at_fresh: "inv_at 0 1 fresh"
  by (simp add: inv_at_def fresh_def invoked_def)

lemma inv_at_mono: "inv_at b c s \<Longrightarrow> b \<le> b' \<Longrightarrow> c \<le> c' \<Longrightarrow> inv_at b' c' s"
  unfolding inv_at_def by (meson less_le_trans)

lemma inv_at_handleResponse:
  assumes i: "inv_at b c s" and h: "handleResponse r s = Inr s'"
  shows "inv_at b c s' \<and> requestId s' = requestId s \<and> nextPromise s' = nextPromise s"
proof (cases "r_method r = Some ''xFeedback/Event''")
  case True
  with h have "s' = emit_event (Dispatch (read_prop (r_params r))) s"
    by (simp add: handleResponse_feedback)
  with i show ?thesis
    by (simp add: inv_at_def emit_event_def invoked_append invoked_def)
next
  case m: False
  show ?thesis
  proof (cases "requests s (key_of (r_id r))")
    case None
    with m h show ?thesis by (simp add: handleResponse_miss)
  next
    case (Some e)
    let ?k = "key_of (r_id r)"
    from handleResponse_hit [OF m Some] h
    have s': "s' = (emit_event (settle r e) s)\<lparr>requests := (requests s)(?k := None)\<rparr>"
      by simp
    from i Some obtain p where p: "p < b" "e = \<lparr>resolve = Resolve p, reject = Reject p\<rparr>"
      "p \<notin> set (invoked (trace s))"
      unfolding inv_at_def by blast
    have tr: "invoked (trace s') = invoked (trace s) @ [p]"
      by (simp add: s' emit_event_def invoked_append p(2) invoked_settle)
    have rq: "requests s' = (requests s)(?k := None)" and rid: "requestId s' = requestId s"
      and np: "nextPromise s' = nextPromise s"
      by (simp_all add: s' emit_event_def)
    have b: "\<forall>k e. requests s' k = Some e \<longrightarrow> (\<exists>n. 0 < n \<and> n < c \<and> k = show_nat n)"
      using i unfolding inv_at_def rq by (simp split: if_splits)
    have c: "\<forall>k e'. requests s' k = Some e' \<longrightarrow>
        (\<exists>q. q < b \<and> e' = \<lparr>resolve = Resolve q, reject = Reject q\<rparr> \<and> q \<notin> set (invoked (trace s')))"
    proof (intro allI impI)
      fix k e' assume ke: "requests s' k = Some e'"
      then have kk: "k \<noteq> ?k" and old: "requests s k = Some e'"
        by (auto simp: rq split: if_splits)
      from i old obtain q where q: "q < b" "e' = \<lparr>resolve = Resolve q, reject = Reject q\<rparr>"
        "q \<notin> set (invoked (trace s))"
        unfolding inv_at_def by blast
      have "q \<noteq> p"
      proof
        assume "q = p"
        with q(2) p(2) have "e' = e" by simp
        with i old Some have "k = ?k" unfolding inv_at_def by blast
        with kk show False by simp
      qed
      with q show "\<exists>q. q < b \<and> e' = \<lparr>resolve = Resolve q, reject = Reject q\<rparr> \<and> q \<notin> set (invoked (trace s'))"
        by (auto simp: tr)
    qed
    have d: "\<forall>k k' e. requests s' k = Some e \<longrightarrow> requests s' k' = Some e \<longrightarrow> k = k'"
    proof (intro allI impI)
      fix k k' e' assume "requests s' k = Some e'" "requests s' k' = Some e'"
      then have "requests s k = Some e'" "requests s k' = Some e'"
        by (auto simp: rq split: if_splits)
      with i show "k = k'" unfolding inv_at_def by blast
    qed
    have e: "distinct (invoked (trace s'))"
      using i p(3) by (simp add: tr inv_at_def)
    have f: "\<forall>q \<in> set (invoked (trace s')). q < b"
      using i p(1) by (auto simp: tr inv_at_def)
    from b c d e f rid np show ?thesis unfolding inv_at_def by blast
  qed
qed


lemma sent_ids_append: "sent_ids (xs @ ys) = sent_ids xs @ sent_ids ys"
  by (simp add: sent_ids_def)

lemma sent_ids_settle: "sent_ids [settle r e] = []"
  by (simp add: sent_ids_def settle_def split: option.splits)

lemma sent_ids_handleResponse:
  assumes h: "handleResponse r s = Inr s'"
  shows "sent_ids (trace s') = sent_ids (trace s)"
proof (cases "r_method r = Some ''xFeedback/Event''")
  case True
  with h show ?thesis
    by (auto simp: handleResponse_feedback emit_event_def sent_ids_append sent_ids_def)
next
  case m: False
  show ?thesis
  proof (cases "requests s (key_of (r_id r))")
    case None
    with m h show ?thesis by (simp add: handleResponse_miss)
  next
    case (Some e)
    with handleResponse_hit [OF m Some] h show ?thesis
      by (auto simp: emit_event_def sent_ids_append sent_ids_settle)
  qed
qed

lemma inv_at_handle_signal:
  assumes i: "inv_at b c s" and h: "handle_signal g s = Inr s'"
  shows "inv_at b c s' \<and> same_counters s s'"
proof (cases g)
  case (Data r)
  with i h inv_at_handleResponse [of b c s r s'] sent_ids_handleResponse [of r s s']
  show ?thesis by (simp add: same_counters_def)
next
  case (Life l)
  with h have "s' = emit_event (Emit l) s" by simp
  with i show ?thesis
    by (simp add: inv_at_def same_counters_def emit_event_def invoked_append sent_ids_append
        invoked_def sent_ids_def)
qed

lemma inv_at_deliver:
  "inv_at b c s \<Longrightarrow> deliver gs s = (x, s') \<Longrightarrow> inv_at b c s' \<and> same_counters s s'"
proof (induction gs arbitrary: s)
  case Nil
  then show ?case by (simp add: same_counters_def)
next
  case (Cons g gs)
  show ?case
  proof (cases "handle_signal g s")
    case (Inl e)
    with Cons.prems show ?thesis by (simp add: same_counters_def)
  next
    case (Inr s1)
    from inv_at_handle_signal [OF Cons.prems(1) Inr]
    have i1: "inv_at b c s1" and c1: "same_counters s s1" by simp_all
    from Cons.prems(2) Inr have "deliver gs s1 = (x, s')" by simp
    from Cons.IH [OF i1 this] c1 show ?thesis by (simp add: same_counters_def)
  qed
qed

lemma inv_at_call_backend:
  assumes i: "inv_at b c s" and c: "call_backend ev cl s = (x, s')"
    and ev: "invoked_of ev = []"
  shows "inv_at b c s' \<and> requestId s' = requestId s \<and> nextPromise s' = nextPromise s
         \<and> sent_ids (trace s') = sent_ids (trace s) @ sent_of ev"
proof -
  let ?s0 = "emit_event ev s"
  have i0: "inv_at b c ?s0"
    using i ev by (simp add: inv_at_def emit_event_def invoked_append invoked_def)
  obtain y s1 where d: "deliver (emits cl) ?s0 = (y, s1)" by (cases "deliver (emits cl) ?s0")
  from c d have s': "s' = s1" by (simp add: call_backend_def split: option.splits)
  from inv_at_deliver [OF i0 d] have "inv_at b c s1" and "same_counters ?s0 s1" by simp_all
  then show ?thesis
    by (simp add: s' same_counters_def emit_event_def sent_ids_append sent_ids_def)
qed


section \<open>The invariant holds in every run\<close>

lemma inv_fresh: "inv fresh"
  using inv_at_fresh by (simp add: inv_def fresh_def sent_ids_def)

lemma inv_at_bump:
  "inv_at b c s \<Longrightarrow> inv_at b c (s\<lparr>nextPromise := n, requestId := m\<rparr>)"
  unfolding inv_at_def by simp

lemma inv_at_entry:
  "inv_at b c s \<Longrightarrow> requests s k = Some e \<Longrightarrow>
   \<exists>p. p < b \<and> e = \<lparr>resolve = Resolve p, reject = Reject p\<rparr> \<and> p \<notin> set (invoked (trace s))"
  unfolding inv_at_def by blast

lemma inv_at_key:
  "inv_at b c s \<Longrightarrow> requests s k = Some e \<Longrightarrow> \<exists>n. 0 < n \<and> n < c \<and> k = show_nat n"
  unfolding inv_at_def by blast


lemma inv_at_raise:
  assumes i: "inv_at p c s"
  shows "inv_at (Suc p) c (emit_event (Invoke (Reject p) e) s)"
proof -
  let ?s = "emit_event (Invoke (Reject p) e) s"
  have tr: "invoked (trace ?s) = invoked (trace s) @ [p]"
    by (simp add: emit_event_def invoked_append invoked_def)
  have rq: "requests ?s = requests s" by (simp add: emit_event_def)
  have fr: "p \<notin> set (invoked (trace s))" using i unfolding inv_at_def by auto
  show ?thesis unfolding inv_at_def rq tr
  proof (intro conjI allI impI)
    fix k e' assume "requests s k = Some e'"
    with i show "\<exists>n>0. n < c \<and> k = show_nat n" by (rule inv_at_key)
  next
    fix k e' assume "requests s k = Some e'"
    from inv_at_entry [OF i this] obtain q where
      q: "q < p" "e' = \<lparr>resolve = Resolve q, reject = Reject q\<rparr>" "q \<notin> set (invoked (trace s))"
      by blast
    then have "q < Suc p \<and> e' = \<lparr>resolve = Resolve q, reject = Reject q\<rparr>
        \<and> q \<notin> set (invoked (trace s) @ [p])" by simp
    then show "\<exists>q<Suc p. e' = \<lparr>resolve = Resolve q, reject = Reject q\<rparr>
        \<and> q \<notin> set (invoked (trace s) @ [p])" by blast
  next
    fix k k' e' assume "requests s k = Some e'" "requests s k' = Some e'"
    with i show "k = k'" unfolding inv_at_def by blast
  next
    show "distinct (invoked (trace s) @ [p])" using i fr unfolding inv_at_def by simp
  next
    show "\<forall>q\<in>set (invoked (trace s) @ [p]). q < Suc p"
      using i unfolding inv_at_def by (simp add: less_SucI)
  qed
qed

lemma inv_at_store:
  assumes i: "inv_at p c s" and pos: "0 < c"
  shows "inv_at (Suc p) (Suc c)
           (s\<lparr>requests := (requests s)(show_nat c \<mapsto> \<lparr>resolve = Resolve p, reject = Reject p\<rparr>)\<rparr>)"
proof -
  let ?i = "show_nat c"
  let ?e = "\<lparr>resolve = Resolve p, reject = Reject p\<rparr>"
  let ?s = "s\<lparr>requests := (requests s)(?i \<mapsto> ?e)\<rparr>"
  have tr: "trace ?s = trace s" by simp
  have fr: "p \<notin> set (invoked (trace s))" using i unfolding inv_at_def by auto
  have old: "e' \<noteq> ?e" if "requests s j = Some e'" for j e'
  proof -
    from inv_at_entry [OF i that] obtain q where "q < p" "e' = \<lparr>resolve = Resolve q, reject = Reject q\<rparr>"
      by blast
    then show ?thesis by simp
  qed
  show ?thesis unfolding inv_at_def tr
  proof (intro conjI allI impI)
    fix k e' assume a: "requests ?s k = Some e'"
    show "\<exists>n>0. n < Suc c \<and> k = show_nat n"
    proof (cases "k = ?i")
      case True
      with pos have "0 < c \<and> c < Suc c \<and> k = show_nat c" by simp
      then show ?thesis by blast
    next
      case False
      with a have "requests s k = Some e'" by simp
      from inv_at_key [OF i this] obtain n where "0 < n" "n < c" "k = show_nat n" by blast
      then have "0 < n \<and> n < Suc c \<and> k = show_nat n" by simp
      then show ?thesis by blast
    qed
  next
    fix k e' assume a: "requests ?s k = Some e'"
    show "\<exists>q<Suc p. e' = \<lparr>resolve = Resolve q, reject = Reject q\<rparr> \<and> q \<notin> set (invoked (trace s))"
    proof (cases "k = ?i")
      case True
      with a have "e' = ?e" by simp
      with fr have "p < Suc p \<and> e' = \<lparr>resolve = Resolve p, reject = Reject p\<rparr>
          \<and> p \<notin> set (invoked (trace s))" by simp
      then show ?thesis by blast
    next
      case False
      with a have "requests s k = Some e'" by simp
      from inv_at_entry [OF i this] obtain q where
        "q < p" "e' = \<lparr>resolve = Resolve q, reject = Reject q\<rparr>" "q \<notin> set (invoked (trace s))"
        by blast
      then have "q < Suc p \<and> e' = \<lparr>resolve = Resolve q, reject = Reject q\<rparr>
          \<and> q \<notin> set (invoked (trace s))" by simp
      then show ?thesis by blast
    qed
  next
    fix k k' e' assume a: "requests ?s k = Some e'" and b: "requests ?s k' = Some e'"
    show "k = k'"
    proof (cases "k = ?i")
      case True
      with a have e': "e' = ?e" by simp
      have "k' = ?i"
      proof (rule ccontr)
        assume "k' \<noteq> ?i"
        with b have "requests s k' = Some e'" by simp
        from old [OF this] e' show False by simp
      qed
      with True show ?thesis by simp
    next
      case False
      with a have ka: "requests s k = Some e'" by simp
      from old [OF ka] have ne: "e' \<noteq> ?e" .
      have "k' \<noteq> ?i"
      proof
        assume "k' = ?i"
        with b have "e' = ?e" by simp
        with ne show False by simp
      qed
      with b have "requests s k' = Some e'" by simp
      with ka i show ?thesis unfolding inv_at_def by blast
    qed
  next
    show "distinct (invoked (trace s))" using i unfolding inv_at_def by simp
  next
    show "\<forall>q\<in>set (invoked (trace s)). q < Suc p"
      using i unfolding inv_at_def by (simp add: less_SucI)
  qed
qed


lemma execute_effect:
  assumes i: "inv s"
  shows "inv (snd (execute bk m ps s))
         \<and> requestId (snd (execute bk m ps s)) = Suc (requestId s)
         \<and> fst (execute bk m ps s) = nextPromise s
         \<and> sent_ids (trace (snd (execute bk m ps s))) = sent_ids (trace s) @ [show_nat (requestId s)]"
proof -
  let ?p = "nextPromise s"
  let ?c = "requestId s"
  let ?i = "show_nat ?c"
  let ?s1 = "s\<lparr>nextPromise := Suc ?p, requestId := ?c + 1\<rparr>"
  let ?rq = "createRequest ?i m ps"
  have n: "nextRequestId (s\<lparr>nextPromise := Suc ?p\<rparr>) = (?i, ?s1)"
    by (simp add: nextRequestId_def)
  have pos: "0 < ?c" using i by (simp add: inv_def)
  have i1: "inv_at ?p ?c ?s1"
    using i inv_at_bump [where b = ?p and c = ?c and s = s and n = "Suc ?p" and m = "?c + 1"] by (simp add: inv_def)
  obtain x s2 where c: "call_backend (BackendExecute ?rq) (bk ?rq) ?s1 = (x, s2)"
    by (cases "call_backend (BackendExecute ?rq) (bk ?rq) ?s1")
  from inv_at_call_backend [OF i1 c]
  have i2: "inv_at ?p ?c s2" and r2: "requestId s2 = Suc ?c"
    and p2: "nextPromise s2 = Suc ?p"
    and t2: "sent_ids (trace s2) = sent_ids (trace s) @ [?i]"
    by (simp_all add: createRequest_def)
  have ids: "sent_ids (trace s2) = map show_nat [1..<Suc ?c]"
    using i pos by (simp add: t2 inv_def)
  show ?thesis
  proof (cases x)
    case (Some e)
    let ?s3 = "emit_event (Invoke (Reject ?p) e) s2"
    from c Some have ex: "execute bk m ps s = (?p, ?s3)"
      by (simp add: execute_def n Let_def)
    have "inv_at (Suc ?p) (Suc ?c) ?s3"
      using inv_at_raise [OF i2] by (rule inv_at_mono) simp_all
    moreover have "sent_ids (trace ?s3) = sent_ids (trace s2)"
      by (simp add: emit_event_def sent_ids_append sent_ids_def)
    moreover have "nextPromise ?s3 = Suc ?p" "requestId ?s3 = Suc ?c"
      using p2 r2 by (simp_all add: emit_event_def)
    ultimately show ?thesis using ids t2 by (simp add: ex inv_def)
  next
    case None
    let ?s3 = "s2\<lparr>requests := (requests s2)(?i \<mapsto> \<lparr>resolve = Resolve ?p, reject = Reject ?p\<rparr>)\<rparr>"
    from c None have ex: "execute bk m ps s = (?p, ?s3)"
      by (simp add: execute_def n Let_def)
    have "inv_at (Suc ?p) (Suc ?c) ?s3"
      using i2 pos by (rule inv_at_store)
    moreover have "sent_ids (trace ?s3) = sent_ids (trace s2)" by simp
    moreover have "nextPromise ?s3 = Suc ?p" "requestId ?s3 = Suc ?c"
      using p2 r2 by simp_all
    ultimately show ?thesis using ids t2 by (simp add: ex inv_def)
  qed
qed

lemma inv_close: 
  assumes i: "inv s"
  shows "inv (snd (close c s)) \<and> same_counters s (snd (close c s))"
proof -
  obtain x s' where c: "call_backend BackendClose c s = (x, s')"
    by (cases "call_backend BackendClose c s")
  from i have "inv_at (nextPromise s) (requestId s) s" by (simp add: inv_def)
  from inv_at_call_backend [OF this c] i show ?thesis
    by (simp add: close_def c inv_def same_counters_def)
qed

lemma inv_signal:
  assumes i: "inv s"
  shows "inv (step (Signal g) s) \<and> same_counters s (step (Signal g) s)"
proof (cases "handle_signal g s")
  case (Inl e)
  with i show ?thesis by (simp add: same_counters_def)
next
  case (Inr s')
  from i have "inv_at (nextPromise s) (requestId s) s" by (simp add: inv_def)
  from inv_at_handle_signal [OF this Inr] i Inr show ?thesis
    by (simp add: inv_def same_counters_def)
qed

lemma inv_step: "inv s \<Longrightarrow> inv (step a s)"
proof (cases a)
  case (Execute m ps bk)
  assume "inv s"
  with execute_effect [of s bk m ps] Execute show ?thesis by simp
next
  case (Command pth ps body bk)
  assume "inv s"
  with execute_effect [of s bk "command_method pth" "command_params ps body"] Command
  show ?thesis by (simp add: command_def)
next
  case (Close c)
  assume "inv s"
  with inv_close [of s c] Close show ?thesis by simp
next
  case (Signal g)
  assume "inv s"
  with inv_signal [of s g] Signal show ?thesis by simp
qed

lemma inv_run: "inv s \<Longrightarrow> inv (run as s)"
  by (induction as arbitrary: s) (simp_all add: inv_step)


section \<open>Concrete states\<close>

lemma show_nat_1: "show_nat (Suc 0) = ''1''"
  by (subst show_nat.simps) (simp add: digit_def)

lemma show_nat_2: "show_nat 2 = ''2''"
  by (subst show_nat.simps) (simp add: digit_def)

lemma execute_quiet:
  "execute quiet m ps s =
     (nextPromise s,
      s\<lparr>nextPromise := Suc (nextPromise s), requestId := Suc (requestId s),
        trace := trace s @ [BackendExecute (createRequest (show_nat (requestId s)) m ps)],
        requests := (requests s)(show_nat (requestId s) \<mapsto> pending (nextPromise s))\<rparr>)"
  by (simp add: execute_def Let_def nextRequestId_def call_backend_def quiet_def emit_event_def pending_def)

lemma one_pending_eq:
  "one_pending = \<lparr>requestId = 2, requests = [''1'' \<mapsto> pending 0], nextPromise = 1,
     trace = [BackendExecute (get_request ''1'')]\<rparr>"
  by (simp add: one_pending_def execute_quiet fresh_def createRequest_def get_request_def show_nat_1)


lemma run_one: "run [Execute ''xGet'' JNull quiet] fresh = one_pending"
  by (simp add: one_pending_def)

lemma run_two: "run [Execute ''xGet'' JNull quiet, Execute ''xGet'' JNull quiet] fresh = two_pending"
  by (simp add: one_pending_def two_pending_def)

section \<open>Messages that are not responses\<close>

lemma dispatched_append: "dispatched (xs @ ys) = dispatched xs @ dispatched ys"
  by (simp add: dispatched_def)

lemma dispatched_settle: "dispatched [settle r e] = []"
  by (simp add: dispatched_def settle_def split: option.splits)

lemma handleResponse_no_dispatch:
  assumes m: "r_method r \<noteq> Some ''xFeedback/Event''" and h: "handleResponse r s = Inr s'"
  shows "dispatched (trace s') = dispatched (trace s)"
proof (cases "requests s (key_of (r_id r))")
  case None
  with m h show ?thesis by (simp add: handleResponse_miss)
next
  case (Some e)
  with handleResponse_hit [OF m Some] h show ?thesis
    by (auto simp: emit_event_def dispatched_append dispatched_settle)
qed

lemma digit_not_d: "d < 10 \<Longrightarrow> digit d \<noteq> CHR ''d''"
proof -
  assume "d < 10"
  then have "d \<in> {0, 1, 2, 3, 4, 5, 6, 7, 8, 9}" by auto
  then show ?thesis by (auto simp: digit_def)
qed

lemma last_show_nat: "last (show_nat n) = digit (n mod 10)"
  by (subst show_nat.simps) simp

lemma show_nat_not_undefined: "show_nat n \<noteq> ''undefined''"
proof
  assume "show_nat n = ''undefined''"
  then have "last (show_nat n) = CHR ''d''" by simp
  then show False using digit_not_d [of "n mod 10"] by (simp add: last_show_nat)
qed


section \<open>The steps of \<open>execute\<close>\<close>

lemma at_backend_execute_eq:
  "at_backend_execute m ps s =
     (show_nat (requestId s),
      s\<lparr>nextPromise := Suc (nextPromise s), requestId := Suc (requestId s),
        trace := trace s @ [BackendExecute (createRequest (show_nat (requestId s)) m ps)]\<rparr>)"
  by (simp add: at_backend_execute_def nextRequestId_def emit_event_def)


lemma execute_via_backend:
  "execute bk m ps s =
     (case at_backend_execute m ps s of
        (i, s1) \<Rightarrow>
          (case deliver (emits (bk (createRequest i m ps))) s1 of
             (Some e, s2) \<Rightarrow> (nextPromise s, emit_event (Invoke (Reject (nextPromise s)) e) s2)
           | (None, s2) \<Rightarrow>
               (case raises (bk (createRequest i m ps)) of
                  Some e \<Rightarrow> (nextPromise s, emit_event (Invoke (Reject (nextPromise s)) e) s2)
                | None \<Rightarrow>
                    (nextPromise s,
                     s2\<lparr>requests := (requests s2)(i \<mapsto> pending (nextPromise s))\<rparr>))))"
  by (simp add: execute_def Let_def at_backend_execute_def nextRequestId_def call_backend_def
      pending_def split: prod.splits option.splits)






lemma inv_reachable: "inv (run as fresh)"
  using inv_fresh by (rule inv_run)

lemma inv_no_undefined: "inv s \<Longrightarrow> requests s ''undefined'' = None"
proof (cases "requests s ''undefined''")
  case (Some e)
  assume "inv s"
  then have "inv_at (nextPromise s) (requestId s) s" by (simp add: inv_def)
  from inv_at_key [OF this Some] show ?thesis using show_nat_not_undefined by metis
qed simp

lemma requestId_run: "inv s \<Longrightarrow> requestId (run as s) = requestId s + executes as"
proof (induction as arbitrary: s)
  case Nil
  then show ?case by (simp add: executes_def)
next
  case (Cons a as)
  have st: "requestId (step a s) = requestId s + sends a"
  proof (cases a)
    case (Execute m ps bk)
    with execute_effect [OF Cons.prems, of bk m ps] show ?thesis by simp
  next
    case (Command pth ps body bk)
    with execute_effect [OF Cons.prems, of bk "command_method pth" "command_params ps body"]
    show ?thesis by (simp add: command_def)
  next
    case (Close c)
    with inv_close [OF Cons.prems, of c] show ?thesis by (simp add: same_counters_def)
  next
    case (Signal g)
    with inv_signal [OF Cons.prems, of g] show ?thesis by (simp add: same_counters_def)
  qed
  from Cons.IH [OF inv_step [OF Cons.prems], of a] st show ?case
    by (simp add: executes_def)
qed

section \<open>What \<open>execute\<close> sends, and when it stores nothing\<close>

lemma sent_requests_append: "sent_requests (xs @ ys) = sent_requests xs @ sent_requests ys"
  by (simp add: sent_requests_def)

lemma sent_requests_settle: "sent_requests [settle r e] = []"
  by (simp add: sent_requests_def settle_def split: option.splits)

lemma sent_requests_handleResponse:
  assumes h: "handleResponse r s = Inr s'"
  shows "sent_requests (trace s') = sent_requests (trace s)"
proof (cases "r_method r = Some ''xFeedback/Event''")
  case True
  with h show ?thesis
    by (auto simp: handleResponse_feedback emit_event_def sent_requests_append sent_requests_def)
next
  case m: False
  show ?thesis
  proof (cases "requests s (key_of (r_id r))")
    case None
    with m h show ?thesis by (simp add: handleResponse_miss)
  next
    case (Some e)
    with handleResponse_hit [OF m Some] h show ?thesis
      by (auto simp: emit_event_def sent_requests_append sent_requests_settle)
  qed
qed

lemma sent_requests_handle_signal:
  assumes h: "handle_signal g s = Inr s'"
  shows "sent_requests (trace s') = sent_requests (trace s)"
proof (cases g)
  case (Data r)
  with h show ?thesis by (simp add: sent_requests_handleResponse)
next
  case (Life l)
  with h show ?thesis
    by (auto simp: emit_event_def sent_requests_append sent_requests_def)
qed

lemma sent_requests_deliver:
  "deliver gs s = (x, s') \<Longrightarrow> sent_requests (trace s') = sent_requests (trace s)"
proof (induction gs arbitrary: s)
  case Nil
  then show ?case by simp
next
  case (Cons g gs)
  show ?case
  proof (cases "handle_signal g s")
    case (Inl e)
    with Cons.prems show ?thesis by simp
  next
    case (Inr s1)
    with Cons.prems have "deliver gs s1 = (x, s')" by simp
    from Cons.IH [OF this] sent_requests_handle_signal [OF Inr] show ?thesis by simp
  qed
qed

lemma sent_requests_execute:
  "sent_requests (trace (snd (execute bk m ps s)))
     = sent_requests (trace s) @ [createRequest (show_nat (requestId s)) m ps]"
proof -
  let ?rq = "createRequest (show_nat (requestId s)) m ps"
  let ?s1 = "s\<lparr>nextPromise := Suc (nextPromise s), requestId := Suc (requestId s),
        trace := trace s @ [BackendExecute ?rq]\<rparr>"
  obtain x s2 where d: "deliver (emits (bk ?rq)) ?s1 = (x, s2)"
    by (cases "deliver (emits (bk ?rq)) ?s1")
  from sent_requests_deliver [OF d]
  have t: "sent_requests (trace s2) = sent_requests (trace s) @ [?rq]"
    by (simp add: sent_requests_append sent_requests_def)
  show ?thesis
    using d t
    by (simp add: execute_via_backend at_backend_execute_eq emit_event_def sent_requests_append
        sent_requests_def split: option.splits)
qed




section \<open>Splitting a joined path\<close>

lemma split_acc_segment:
  "list_all (\<lambda>c. \<not> is_delim c) seg \<Longrightarrow> split_acc cur (seg @ rest) = split_acc (cur @ seg) rest"
  by (induction seg arbitrary: cur) simp_all

lemma split_acc_join:
  assumes d: "is_delim d"
  shows "list_all is_segment segs \<Longrightarrow> split_acc [] (join [d] segs) = segs"
proof (induction "[d]" segs rule: join.induct)
  case 1
  show ?case by simp
next
  case (2 x)
  then have x: "x \<noteq> []" "list_all (\<lambda>c. \<not> is_delim c) x" by (simp_all add: is_segment_def)
  from split_acc_segment [OF x(2), of "[]" "[]"] x(1) show ?case by simp
next
  case (3 x y ys)
  then have x: "x \<noteq> []" "list_all (\<lambda>c. \<not> is_delim c) x" and r: "list_all is_segment (y # ys)"
    by (simp_all add: is_segment_def)
  from 3(1) [OF r] have ih: "split_acc [] (join [d] (y # ys)) = y # ys" .
  have "split_acc [] (x @ d # join [d] (y # ys)) = split_acc x (d # join [d] (y # ys))"
    using split_acc_segment [OF x(2), of "[]" "d # join [d] (y # ys)"] by simp
  also have "\<dots> = x # split_acc [] (join [d] (y # ys))" using d x(1) by simp
  finally show ?case using ih by simp
qed

section \<open>The claims\<close>

text \<open>
  Claim C1. Let a message that is not a feedback event carry the id \<open>i\<close>, and let the
  table hold the entry \<open>e\<close> under \<open>i\<close>. If the message has a \<^verbatim>\<open>result\<close> key, handling it
  calls the \<^verbatim>\<open>resolve\<close> continuation of \<open>e\<close> with the result; if it has none, handling it
  calls the \<^verbatim>\<open>reject\<close> continuation of \<open>e\<close> with the message's \<^verbatim>\<open>error\<close>. Nothing else
  happens but that the entry leaves the table: afterwards the table has no entry
  under \<open>i\<close>.
\<close>

theorem response_settles_pending:
  assumes "r_id r = Some i" and "requests s i = Some e"
    and "r_method r \<noteq> Some ''xFeedback/Event''"
  shows "(r_result r = Some v \<longrightarrow>
            handleResponse r s =
              Inr (s\<lparr>requests := (requests s)(i := None),
                     trace := trace s @ [Invoke (resolve e) v]\<rparr>))
       \<and> (r_result r = None \<longrightarrow>
            handleResponse r s =
              Inr (s\<lparr>requests := (requests s)(i := None),
                     trace := trace s @ [Invoke (reject e) (read_prop (r_error r))]\<rparr>))
       \<and> (\<exists>s'. handleResponse r s = Inr s' \<and> requests s' i = None)"
proof -
  from assms have k: "requests s (key_of (r_id r)) = Some e" and ki: "key_of (r_id r) = i"
    by (simp_all add: key_of_def)
  note h = handleResponse_hit [OF assms(3) k]
  show ?thesis
    by (simp add: h ki settle_def emit_event_def)
qed

text \<open>The theorem of claim C1 at a concrete input.\<close>

theorem response_settles_pending_witness:
  "requests one_pending ''1'' = Some (pending 0)
   \<and> handleResponse (message (Some ''1'') (Some (JNum 42)) None) one_pending
       = Inr (one_pending\<lparr>requests := (requests one_pending)(''1'' := None),
                trace := trace one_pending @ [Invoke (Resolve 0) (JNum 42)]\<rparr>)
   \<and> handleResponse (message (Some ''1'') None (Some (JStr ''busy''))) one_pending
       = Inr (one_pending\<lparr>requests := (requests one_pending)(''1'' := None),
                trace := trace one_pending @ [Invoke (Reject 0) (JStr ''busy'')]\<rparr>)"
proof -
  have e: "requests one_pending ''1'' = Some (pending 0)"
    by (simp add: one_pending_eq)
  have a: "handleResponse (message (Some ''1'') (Some (JNum 42)) None) one_pending
       = Inr (one_pending\<lparr>requests := (requests one_pending)(''1'' := None),
                trace := trace one_pending @ [Invoke (Resolve 0) (JNum 42)]\<rparr>)"
    using response_settles_pending [where r = "message (Some ''1'') (Some (JNum 42)) None"
        and i = "''1''" and s = one_pending and e = "pending 0" and v = "JNum 42", OF _ e]
    by (simp add: message_def pending_def)
  have b: "handleResponse (message (Some ''1'') None (Some (JStr ''busy''))) one_pending
       = Inr (one_pending\<lparr>requests := (requests one_pending)(''1'' := None),
                trace := trace one_pending @ [Invoke (Reject 0) (JStr ''busy'')]\<rparr>)"
    using response_settles_pending [where r = "message (Some ''1'') None (Some (JStr ''busy''))"
        and i = "''1''" and s = one_pending and e = "pending 0", OF _ e]
    by (simp add: message_def pending_def read_prop_def)
  from e a b show ?thesis by blast
qed

text \<open>
  Claim C2 says that a message whose id matches no entry is dropped without an
  exception. The code raises instead. On a fresh instance the response
  \<^verbatim>\<open>{id: "7", result: 42}\<close> raises a \<^verbatim>\<open>TypeError\<close>; and once the response
  \<^verbatim>\<open>{id: "1", result: 42}\<close> has resolved the request \<^verbatim>\<open>"1"\<close>, the same response a second
  time raises a \<^verbatim>\<open>TypeError\<close> too.
\<close>

theorem unknown_id_raises:
  "handleResponse (message (Some ''7'') (Some (JNum 42)) None) fresh = Inl (JError ''TypeError'')
   \<and> handleResponse (message (Some ''1'') (Some (JNum 42)) None)
        (step (Signal (Data (message (Some ''1'') (Some (JNum 42)) None))) one_pending)
      = Inl (JError ''TypeError'')"
proof -
  have a: "handleResponse (message (Some ''7'') (Some (JNum 42)) None) fresh = Inl (JError ''TypeError'')"
    by (rule handleResponse_miss) (simp_all add: message_def key_of_def fresh_def)
  have h: "handleResponse (message (Some ''1'') (Some (JNum 42)) None) one_pending
     = Inr ((emit_event (settle (message (Some ''1'') (Some (JNum 42)) None) (pending 0)) one_pending)
          \<lparr>requests := (requests one_pending)(''1'' := None)\<rparr>)"
    using handleResponse_hit [of "message (Some ''1'') (Some (JNum 42)) None" one_pending "pending 0"]
    by (simp add: message_def key_of_def one_pending_eq)
  have b: "handleResponse (message (Some ''1'') (Some (JNum 42)) None)
        (step (Signal (Data (message (Some ''1'') (Some (JNum 42)) None))) one_pending)
      = Inl (JError ''TypeError'')"
    by (rule handleResponse_miss) (simp_all add: h, simp_all add: message_def key_of_def emit_event_def)
  from a b show ?thesis by blast
qed

text \<open>
  Claim C3 says that a malformed payload neither resolves nor rejects a pending
  request and leaves the table unchanged. With the request \<^verbatim>\<open>"1"\<close> pending, the payload
  \<^verbatim>\<open>{id: "1"}\<close>, which has neither a \<^verbatim>\<open>result\<close> nor an \<^verbatim>\<open>error\<close> key, rejects that request
  with \<^verbatim>\<open>undefined\<close> and empties the table.
\<close>

theorem malformed_rejects_pending:
  "malformed (message (Some ''1'') None None)
   \<and> requests one_pending ''1'' = Some (pending 0)
   \<and> handleResponse (message (Some ''1'') None None) one_pending
       = Inr (one_pending\<lparr>requests := Map.empty,
                trace := trace one_pending @ [Invoke (Reject 0) JUndefined]\<rparr>)"
proof -
  let ?m = "message (Some ''1'') None None"
  have "handleResponse ?m one_pending
     = Inr ((emit_event (settle ?m (pending 0)) one_pending)\<lparr>requests := (requests one_pending)(''1'' := None)\<rparr>)"
    using handleResponse_hit [of ?m one_pending "pending 0"]
    by (simp add: message_def key_of_def one_pending_eq)
  then show ?thesis
    by (simp add: malformed_def message_def one_pending_eq settle_def emit_event_def pending_def
        read_prop_def)
qed

text \<open>
  Claim C3 as amended. A malformed payload never reaches \<^verbatim>\<open>feedback.dispatch\<close>. If its
  id names no entry of the table, handling it leaves the instance as it was; that is
  so for every payload without an id, in every state that a run from a fresh instance
  reaches. If it has neither a \<^verbatim>\<open>result\<close> nor an \<^verbatim>\<open>error\<close> key and its id names an entry,
  it is handled as an error response: the \<^verbatim>\<open>reject\<close> continuation of the entry is called
  with \<^verbatim>\<open>undefined\<close> and the entry leaves the table.
\<close>

theorem malformed_handling:
  assumes "malformed r"
  shows "(\<forall>s'. handleResponse r s = Inr s' \<longrightarrow> dispatched (trace s') = dispatched (trace s))
       \<and> (requests s (key_of (r_id r)) = None \<longrightarrow> step (Signal (Data r)) s = s)
       \<and> (r_id r = None \<longrightarrow> step (Signal (Data r)) (run as fresh) = run as fresh)
       \<and> (\<forall>e. requests s (key_of (r_id r)) = Some e \<longrightarrow> r_result r = None \<longrightarrow> r_error r = None \<longrightarrow>
            handleResponse r s =
              Inr (s\<lparr>requests := (requests s)(key_of (r_id r) := None),
                     trace := trace s @ [Invoke (reject e) JUndefined]\<rparr>))"
proof -
  from assms have m: "r_method r \<noteq> Some ''xFeedback/Event''" by (simp add: malformed_def)
  have a: "\<forall>s'. handleResponse r s = Inr s' \<longrightarrow> dispatched (trace s') = dispatched (trace s)"
    using handleResponse_no_dispatch [OF m] by blast
  have b: "step (Signal (Data r)) t = t" if "requests t (key_of (r_id r)) = None" for t
    using handleResponse_miss [OF m that] by simp
  have c: "r_id r = None \<longrightarrow> step (Signal (Data r)) (run as fresh) = run as fresh"
  proof
    assume n: "r_id r = None"
    have "inv (run as fresh)" using inv_fresh by (rule inv_run)
    then have "requests (run as fresh) ''undefined'' = None" by (rule inv_no_undefined)
    with n show "step (Signal (Data r)) (run as fresh) = run as fresh"
      by (intro b) (simp add: key_of_def)
  qed
  have d: "\<forall>e. requests s (key_of (r_id r)) = Some e \<longrightarrow> r_result r = None \<longrightarrow> r_error r = None \<longrightarrow>
            handleResponse r s =
              Inr (s\<lparr>requests := (requests s)(key_of (r_id r) := None),
                     trace := trace s @ [Invoke (reject e) JUndefined]\<rparr>)"
    by (simp add: handleResponse_hit [OF m] settle_def emit_event_def read_prop_def)
  from a b [of s] c d show ?thesis by blast
qed

text \<open>The theorem of claim C3 at a concrete input.\<close>

theorem malformed_handling_witness:
  "malformed (message (Some ''1'') None None)
   \<and> requests one_pending ''1'' = Some (pending 0)
   \<and> handleResponse (message (Some ''1'') None None) one_pending
       = Inr (one_pending\<lparr>requests := (requests one_pending)(''1'' := None),
                trace := trace one_pending @ [Invoke (Reject 0) JUndefined]\<rparr>)
   \<and> malformed (message None (Some (JNum 42)) None)
   \<and> step (Signal (Data (message None (Some (JNum 42)) None))) one_pending = one_pending"
proof -
  let ?m = "message (Some ''1'') None None"
  let ?n = "message None (Some (JNum 42)) None"
  have m: "malformed ?m" and n: "malformed ?n"
    by (simp_all add: malformed_def message_def)
  have e: "requests one_pending ''1'' = Some (pending 0)" by (simp add: one_pending_eq)
  have km: "key_of (r_id ?m) = ''1''" "r_result ?m = None" "r_error ?m = None" "r_id ?n = None"
    by (simp_all add: message_def key_of_def)
  from malformed_handling [OF m, of one_pending "[]"] e km
  have a: "handleResponse ?m one_pending
       = Inr (one_pending\<lparr>requests := (requests one_pending)(''1'' := None),
                trace := trace one_pending @ [Invoke (reject (pending 0)) JUndefined]\<rparr>)"
    by simp
  from malformed_handling [OF n, of one_pending "[Execute ''xGet'' JNull quiet]"] km(4)
  have b: "step (Signal (Data ?n)) one_pending = one_pending"
    by (simp only: run_one)
  from m n e a b show ?thesis by (simp add: pending_def)
qed




text \<open>
  Claim C5. The first \<open>execute\<close> on a fresh instance sends the id \<^verbatim>\<open>"1"\<close>. After any run
  from a fresh instance that executes \<open>n\<close> requests, the ids sent are the decimal
  strings of \<open>1, ..., n\<close> in this order, the next \<open>execute\<close> sends the string of \<open>n + 1\<close>,
  and the ids sent are pairwise distinct.
\<close>

theorem request_ids_count_up:
  "sent_ids (trace (snd (execute bk m ps fresh))) = [''1'']
   \<and> sent_ids (trace (run as fresh)) = map show_nat [1..<Suc (executes as)]
   \<and> sent_ids (trace (snd (execute bk m ps (run as fresh))))
        = sent_ids (trace (run as fresh)) @ [show_nat (Suc (executes as))]
   \<and> distinct (sent_ids (trace (run as fresh)))"
proof -
  let ?s = "run as fresh"
  note i = inv_reachable [of as]
  have r: "requestId ?s = Suc (executes as)"
    using requestId_run [OF inv_fresh, of as] by (simp add: fresh_def)
  have a: "sent_ids (trace (snd (execute bk m ps fresh))) = [''1'']"
    using execute_effect [OF inv_fresh, of bk m ps]
    by (simp add: fresh_def sent_ids_def show_nat_1)
  have b: "sent_ids (trace ?s) = map show_nat [1..<Suc (executes as)]"
    using i r by (simp add: inv_def)
  have c: "sent_ids (trace (snd (execute bk m ps ?s))) = sent_ids (trace ?s) @ [show_nat (Suc (executes as))]"
    using execute_effect [OF i, of bk m ps] r by simp
  have "inj show_nat" by (rule injI) (rule show_nat_inj)
  then have d: "distinct (sent_ids (trace ?s))"
    unfolding b by (simp add: distinct_map inj_on_def)
  from a b c d show ?thesis by blast
qed

text \<open>The theorem of claim C5 at a concrete input.\<close>

theorem request_ids_count_up_witness:
  "sent_ids (trace two_pending) = [''1'', ''2'']
   \<and> sent_ids (trace (snd (execute quiet ''xGet'' JNull two_pending))) = [''1'', ''2'', ''3'']
   \<and> distinct (sent_ids (trace two_pending))"
proof -
  have n: "executes [Execute ''xGet'' JNull quiet, Execute ''xGet'' JNull quiet] = 2"
    by (simp add: executes_def)
  have s3: "show_nat 3 = ''3''" by (subst show_nat.simps) (simp add: digit_def)
  have u: "[Suc 0..<3] = [Suc 0, 2]" by (simp add: upt_rec)
  note t = request_ids_count_up [of quiet "''xGet''" JNull
      "[Execute ''xGet'' JNull quiet, Execute ''xGet'' JNull quiet]", unfolded run_two n]
  from t have a: "sent_ids (trace two_pending) = [''1'', ''2'']"
    by (simp add: u show_nat_1 show_nat_2)
  from t a have b: "sent_ids (trace (snd (execute quiet ''xGet'' JNull two_pending))) = [''1'', ''2'', ''3'']"
    by (simp add: s3)
  from t have c: "distinct (sent_ids (trace two_pending))" by blast
  from a b c show ?thesis by blast
qed

text \<open>
  Claim C6. Let a path be given in one of its three forms: the segments joined by
  spaces, the segments joined by slashes, or the array of the segments. It normalizes
  to that sequence of segments, with every segment as it was written. \<open>command\<close> then
  is \<open>execute\<close> with the method \<^verbatim>\<open>xCommand/\<close> followed by the segments joined by slashes,
  and the one request it hands to the backend carries that method, the next id and
  the parameters of the command, whatever the backend does during the call.
\<close>

theorem path_forms_agree:
  assumes "list_all is_segment segs"
    and "pth = PStr (join '' '' segs) \<or> pth = PStr (join ''/'' segs) \<or> pth = PArr segs"
  shows "normalizePath pth = segs
       \<and> command_method pth = ''xCommand/'' @ join ''/'' segs
       \<and> command bk pth ps body s
           = execute bk (''xCommand/'' @ join ''/'' segs) (command_params ps body) s
       \<and> sent_requests (trace (snd (command bk pth ps body s)))
           = sent_requests (trace s) @
             [\<lparr>jsonrpc = ''2.0'', req_id = show_nat (requestId s),
               req_method = ''xCommand/'' @ join ''/'' segs,
               req_params = command_params ps body\<rparr>]"
proof -
  have a: "split_acc [] (join '' '' segs) = segs"
    using split_acc_join [of "CHR '' ''" segs] assms(1) by (simp add: is_delim_def)
  have b: "split_acc [] (join ''/'' segs) = segs"
    using split_acc_join [of "CHR ''/''" segs] assms(1) by (simp add: is_delim_def)
  from assms(2) a b have n: "normalizePath pth = segs" by auto
  then have m: "command_method pth = ''xCommand/'' @ join ''/'' segs"
    by (simp add: command_method_def)
  then have c: "command bk pth ps body s
      = execute bk (''xCommand/'' @ join ''/'' segs) (command_params ps body) s"
    by (simp only: command_def)
  have "sent_requests (trace (snd (command bk pth ps body s)))
      = sent_requests (trace s) @
          [createRequest (show_nat (requestId s)) (''xCommand/'' @ join ''/'' segs)
             (command_params ps body)]"
    by (simp only: c sent_requests_execute)
  with n m c show ?thesis by (simp add: createRequest_def)
qed

text \<open>The theorem of claim C6 at a concrete input.\<close>

theorem path_forms_agree_witness:
  "list_all is_segment [''Presentation'', ''Start'']
   \<and> normalizePath (PStr ''Presentation Start'') = [''Presentation'', ''Start'']
   \<and> normalizePath (PStr ''Presentation/Start'') = [''Presentation'', ''Start'']
   \<and> normalizePath (PArr [''Presentation'', ''Start'']) = [''Presentation'', ''Start'']
   \<and> sent_requests (trace (snd (command quiet (PStr ''Presentation Start'') JNull None fresh)))
       = [\<lparr>jsonrpc = ''2.0'', req_id = ''1'', req_method = ''xCommand/Presentation/Start'',
           req_params = JNull\<rparr>]
   \<and> sent_requests (trace (snd (command quiet (PStr ''Presentation/Start'') JNull None fresh)))
       = [\<lparr>jsonrpc = ''2.0'', req_id = ''1'', req_method = ''xCommand/Presentation/Start'',
           req_params = JNull\<rparr>]
   \<and> sent_requests (trace (snd (command quiet (PArr [''Presentation'', ''Start'']) JNull None fresh)))
       = [\<lparr>jsonrpc = ''2.0'', req_id = ''1'', req_method = ''xCommand/Presentation/Start'',
           req_params = JNull\<rparr>]"
proof -
  let ?segs = "[''Presentation'', ''Start'']"
  have h: "list_all is_segment ?segs"
    by (simp add: is_segment_def is_delim_def)
  have f: "requestId fresh = Suc 0" "sent_requests (trace fresh) = []"
    "command_params JNull None = JNull"
    by (simp_all add: fresh_def sent_requests_def command_params_def)
  note t = path_forms_agree [OF h, where bk = quiet and ps = JNull and body = None and s = fresh]
  have p: "PStr ''Presentation Start'' = PStr (join '' '' ?segs)
      \<or> PStr ''Presentation Start'' = PStr (join ''/'' ?segs)
      \<or> PStr ''Presentation Start'' = PArr ?segs"
    and q: "PStr ''Presentation/Start'' = PStr (join '' '' ?segs)
      \<or> PStr ''Presentation/Start'' = PStr (join ''/'' ?segs)
      \<or> PStr ''Presentation/Start'' = PArr ?segs"
    and r: "PArr ?segs = PStr (join '' '' ?segs) \<or> PArr ?segs = PStr (join ''/'' ?segs)
      \<or> PArr ?segs = PArr ?segs"
    by simp_all
  have a1: "normalizePath (PStr ''Presentation Start'') = ?segs"
    using t [OF p, THEN conjunct1] .
  have a2: "sent_requests (trace (snd (command quiet (PStr ''Presentation Start'') JNull None fresh)))
       = [\<lparr>jsonrpc = ''2.0'', req_id = ''1'', req_method = ''xCommand/Presentation/Start'',
           req_params = JNull\<rparr>]"
    using t [OF p, THEN conjunct2, THEN conjunct2, THEN conjunct2] by (simp add: f show_nat_1)
  have b1: "normalizePath (PStr ''Presentation/Start'') = ?segs"
    using t [OF q, THEN conjunct1] .
  have b2: "sent_requests (trace (snd (command quiet (PStr ''Presentation/Start'') JNull None fresh)))
       = [\<lparr>jsonrpc = ''2.0'', req_id = ''1'', req_method = ''xCommand/Presentation/Start'',
           req_params = JNull\<rparr>]"
    using t [OF q, THEN conjunct2, THEN conjunct2, THEN conjunct2] by (simp add: f show_nat_1)
  have c1: "normalizePath (PArr ?segs) = ?segs"
    using t [OF r, THEN conjunct1] .
  have c2: "sent_requests (trace (snd (command quiet (PArr ?segs) JNull None fresh)))
       = [\<lparr>jsonrpc = ''2.0'', req_id = ''1'', req_method = ''xCommand/Presentation/Start'',
           req_params = JNull\<rparr>]"
    using t [OF r, THEN conjunct2, THEN conjunct2, THEN conjunct2] by (simp add: f show_nat_1)
  from h a1 a2 b1 b2 c1 c2 show ?thesis by blast
qed




text \<open>
  Claim C8. A request whose method has no registered handler has the outcome of the
  default handler, a rejection with the message \<^verbatim>\<open>Invalid request method\<close>; the default
  handler returns that outcome for every request and never throws.
\<close>

theorem unhandled_method_is_rejected:
  "(hs (handler_key (b_method rq)) = None \<longrightarrow>
      backend_execute hs rq = Rejected ''Invalid request method'')
   \<and> defaultHandler rq = Inr (Rejected ''Invalid request method'')"
proof (intro conjI impI)
  show d: "defaultHandler rq = Inr (Rejected ''Invalid request method'')"
    by (simp add: defaultHandler_def)
  assume "hs (handler_key (b_method rq)) = None"
  then have "backend_execute hs rq = (case defaultHandler rq of Inl msg \<Rightarrow> Rejected msg | Inr out \<Rightarrow> out)"
    by (simp add: backend_execute_def)
  with d show "backend_execute hs rq = Rejected ''Invalid request method''"
    by simp
qed

text \<open>The theorem of claim C8 at a concrete input.\<close>

theorem unhandled_method_is_rejected_witness:
  "handler_key (b_method dial) = ''xCommand''
   \<and> backend_execute Map.empty dial = Rejected ''Invalid request method''
   \<and> defaultHandler dial = Inr (Rejected ''Invalid request method'')"
proof -
  have k: "handler_key (b_method dial) = ''xCommand''"
    by (simp add: handler_key_def dial_def)
  from unhandled_method_is_rejected [of Map.empty dial] k show ?thesis by simp
qed

text \<open>
  Claim C9. A message whose method is \<^verbatim>\<open>xFeedback/Event\<close> has its \<^verbatim>\<open>params\<close> passed to
  \<^verbatim>\<open>feedback.dispatch\<close>, and that call is the only effect: the table, the counters and
  the continuations are untouched. A message with any other method never reaches
  \<^verbatim>\<open>feedback.dispatch\<close>: if handling it returns, the dispatched payloads are those from
  before (and if it raises, nothing was done at all).
\<close>

theorem feedback_goes_to_dispatch_only:
  "(r_method r = Some ''xFeedback/Event'' \<longrightarrow>
      handleResponse r s = Inr (s\<lparr>trace := trace s @ [Dispatch (read_prop (r_params r))]\<rparr>))
   \<and> (r_method r \<noteq> Some ''xFeedback/Event'' \<longrightarrow>
      (\<forall>s'. handleResponse r s = Inr s' \<longrightarrow> dispatched (trace s') = dispatched (trace s)))"
proof (intro conjI impI allI)
  assume "r_method r = Some ''xFeedback/Event''"
  then show "handleResponse r s = Inr (s\<lparr>trace := trace s @ [Dispatch (read_prop (r_params r))]\<rparr>)"
    by (simp add: handleResponse_feedback emit_event_def)
next
  fix s'
  assume "r_method r \<noteq> Some ''xFeedback/Event''" and "handleResponse r s = Inr s'"
  then show "dispatched (trace s') = dispatched (trace s)"
    by (rule handleResponse_no_dispatch)
qed

text \<open>The theorem of claim C9 at a concrete input.\<close>

theorem feedback_goes_to_dispatch_only_witness:
  "handleResponse (feedback_event (JStr ''Standby'')) one_pending
     = Inr (one_pending\<lparr>trace := trace one_pending @ [Dispatch (JStr ''Standby'')]\<rparr>)
   \<and> handleResponse (message (Some ''1'') (Some (JNum 42)) None) one_pending
       = Inr (one_pending\<lparr>requests := (requests one_pending)(''1'' := None),
                trace := trace one_pending @ [Invoke (Resolve 0) (JNum 42)]\<rparr>)
   \<and> dispatched (trace (one_pending\<lparr>requests := (requests one_pending)(''1'' := None),
                trace := trace one_pending @ [Invoke (Resolve 0) (JNum 42)]\<rparr>))
       = dispatched (trace one_pending)"
proof -
  let ?m = "message (Some ''1'') (Some (JNum 42)) None"
  let ?s' = "one_pending\<lparr>requests := (requests one_pending)(''1'' := None),
                trace := trace one_pending @ [Invoke (Resolve 0) (JNum 42)]\<rparr>"
  have a: "handleResponse (feedback_event (JStr ''Standby'')) one_pending
     = Inr (one_pending\<lparr>trace := trace one_pending @ [Dispatch (JStr ''Standby'')]\<rparr>)"
    using feedback_goes_to_dispatch_only [of "feedback_event (JStr ''Standby'')" one_pending]
    by (simp add: feedback_event_def read_prop_def)
  have b: "handleResponse ?m one_pending = Inr ?s'"
    using handleResponse_hit [of ?m one_pending "pending 0"]
    by (simp add: message_def key_of_def one_pending_eq settle_def emit_event_def pending_def)
  have nf: "r_method ?m \<noteq> Some ''xFeedback/Event''" by (simp add: message_def)
  from feedback_goes_to_dispatch_only [of ?m one_pending] nf
  have "\<forall>s'. handleResponse ?m one_pending = Inr s' \<longrightarrow>
      dispatched (trace s') = dispatched (trace one_pending)" by blast
  with b have c: "dispatched (trace ?s') = dispatched (trace one_pending)" by blast
  from a b c show ?thesis by blast
qed



end
